theory Spec2Isabelle
  imports Main "HOL-Library.Signed_Division"
begin

section \<open>The bounded FIFO queue of \<^verbatim>\<open>src/lab.c\<close>\<close>

subsection \<open>Data model\<close>

text \<open>
  The queue transports opaque \<^verbatim>\<open>void *\<close> values and never looks inside them: a pointer
  is an address, a natural number, and \<^verbatim>\<open>NULL\<close> is address 0.
\<close>

type_synonym ptr = nat

abbreviation NULL :: ptr where
  "NULL \<equiv> 0"

text \<open>
  \<^verbatim>\<open>struct queue\<close>, field by field. The C \<^verbatim>\<open>int\<close> fields are integers; the lemma
  \<open>reached_int_range\<close> below shows that no increment or decrement of the code leaves the
  range of \<^verbatim>\<open>int\<close> in a state the code can reach, so no wrap-around is involved. The field
  \<^verbatim>\<open>size\<close> is called \<open>size_q\<close> here. The mutex and the two condition variables carry
  no data of the queue; what they contribute is that every function body below runs
  under the lock, as one indivisible step.
\<close>

record queue =
  buffer :: "ptr list"
  capacity :: int
  size_q :: int
  front :: int
  rear :: int
  is_shutdown_flag :: bool

text \<open>
  A handle \<^verbatim>\<open>queue_t\<close> is a pointer to the struct: \<open>None\<close> is the \<^verbatim>\<open>NULL\<close> handle,
  \<open>Some q\<close> a handle to a live queue whose fields are \<open>q\<close>. A function that changes the
  struct returns the handle with the new fields.
\<close>

type_synonym queue_t = "queue option"

subsection \<open>Construction and teardown\<close>

text \<open>
  \<^verbatim>\<open>queue_init\<close>. The two calls of \<^verbatim>\<open>malloc\<close> are the environment's: \<open>malloc_q\<close> tells
  whether the struct was obtained, \<open>malloc_buffer\<close> is \<open>None\<close> when the array was not
  obtained and otherwise gives the indeterminate contents of the fresh cells (cell \<open>i\<close>
  holds \<open>cells i\<close>). The array has \<open>capacity\<close> cells.
\<close>

definition queue_init :: "bool \<Rightarrow> (nat \<Rightarrow> ptr) option \<Rightarrow> int \<Rightarrow> queue_t" where
  "queue_init malloc_q malloc_buffer cap =
     (if cap \<le> 0 then None
      else if \<not> malloc_q then None
      else (case malloc_buffer of
              None \<Rightarrow> None
            | Some cells \<Rightarrow>
                Some \<lparr>buffer = map cells [0..<nat cap], capacity = cap, size_q = 0,
                      front = 0, rear = - 1, is_shutdown_flag = False\<rparr>))"

text \<open>
  \<^verbatim>\<open>queue_destroy\<close> sets the flag, wakes every waiter, destroys the primitives and frees
  the memory. Its result here is what was torn down: nothing for the \<^verbatim>\<open>NULL\<close> handle,
  and otherwise the queue as it was when its memory was released.
\<close>

datatype teardown = Nothing_done | Released queue

definition queue_destroy :: "queue_t \<Rightarrow> teardown" where
  "queue_destroy h =
     (case h of
        None \<Rightarrow> Nothing_done
      | Some q \<Rightarrow> Released (q\<lparr>is_shutdown_flag := True\<rparr>))"

subsection \<open>The blocking operations\<close>

text \<open>
  \<^verbatim>\<open>pthread_cond_wait\<close> gives the lock up, sleeps until the condition is signalled and
  takes the lock again. With one thread calling, nobody changes the queue meanwhile, so
  the queue the caller finds on waking is the one it left. The two wait loops test
  again after every wake-up, as the source does; a loop whose test stays true never
  returns, which is the value \<open>None\<close>.
\<close>

definition pthread_cond_wait :: "queue \<Rightarrow> queue" where
  "pthread_cond_wait q = q"

partial_function (option) enqueue_wait :: "queue \<Rightarrow> queue option" where
  "enqueue_wait q =
     (if size_q q = capacity q \<and> \<not> is_shutdown_flag q
      then enqueue_wait (pthread_cond_wait q)
      else Some q)"

partial_function (option) dequeue_wait :: "queue \<Rightarrow> queue option" where
  "dequeue_wait q =
     (if size_q q = 0 \<and> \<not> is_shutdown_flag q
      then dequeue_wait (pthread_cond_wait q)
      else Some q)"

declare enqueue_wait.simps [code]

declare dequeue_wait.simps [code]

text \<open>
  \<^verbatim>\<open>enqueue\<close>: the result is \<open>None\<close> when the call never returns, and otherwise the
  handle after the call. C's \<^verbatim>\<open>%\<close> truncates towards zero, which is \<open>smod\<close>. The
  array is a list indexed from 0. An index outside the array, or a capacity of 0 under
  \<^verbatim>\<open>%\<close>, would be undefined behaviour in C; the lemma \<open>accesses_in_bounds\<close> shows
  that neither arises in a queue that satisfies the invariant, which every constructed
  queue does in every state (lemma \<open>reached\<close>).
\<close>

definition enqueue :: "queue_t \<Rightarrow> ptr \<Rightarrow> queue_t option" where
  "enqueue h data =
     (case h of
        None \<Rightarrow> Some None
      | Some q0 \<Rightarrow>
          (case enqueue_wait q0 of
             None \<Rightarrow> None
           | Some q \<Rightarrow>
               if is_shutdown_flag q then Some (Some q)
               else
                 let q1 = q\<lparr>rear := (rear q + 1) smod capacity q\<rparr>;
                     q2 = q1\<lparr>buffer := (buffer q1)[nat (rear q1) := data]\<rparr>;
                     q3 = q2\<lparr>size_q := size_q q2 + 1\<rparr>
                 in Some (Some q3)))"

text \<open>
  \<^verbatim>\<open>dequeue\<close>: \<open>None\<close> when the call never returns, and otherwise the pointer returned
  together with the handle after the call.
\<close>

definition dequeue :: "queue_t \<Rightarrow> (ptr \<times> queue_t) option" where
  "dequeue h =
     (case h of
        None \<Rightarrow> Some (NULL, None)
      | Some q0 \<Rightarrow>
          (case dequeue_wait q0 of
             None \<Rightarrow> None
           | Some q \<Rightarrow>
               if size_q q = 0 then Some (NULL, Some q)
               else
                 let data = buffer q ! nat (front q);
                     q1 = q\<lparr>front := (front q + 1) smod capacity q\<rparr>;
                     q2 = q1\<lparr>size_q := size_q q1 - 1\<rparr>
                 in Some (data, Some q2)))"

subsection \<open>Shutdown and the two queries\<close>

definition queue_shutdown :: "queue_t \<Rightarrow> queue_t" where
  "queue_shutdown h =
     (case h of
        None \<Rightarrow> None
      | Some q \<Rightarrow> Some (q\<lparr>is_shutdown_flag := True\<rparr>))"

definition is_empty :: "queue_t \<Rightarrow> bool" where
  "is_empty h = (case h of None \<Rightarrow> True | Some q \<Rightarrow> size_q q = 0)"

definition is_shutdown :: "queue_t \<Rightarrow> bool" where
  "is_shutdown h = (case h of None \<Rightarrow> True | Some q \<Rightarrow> is_shutdown_flag q)"

subsection \<open>Sequences of calls\<close>

text \<open>
  A client makes calls one after the other on the same handle. \<open>call\<close> is one call with
  what it returns, \<open>run\<close> a sequence of calls with the values returned, in order. A
  sequence in which some call never returns has no result.

  Every function of the source reads and writes the fields only while it holds the
  lock, and a waiting call leaves the fields as they are and tests again when it wakes.
  So with several threads the fields still go through a sequence of states in which each
  change is the change of one completed call on the state before it: the states a queue
  can be in are those at the end of a \<open>run\<close> from a constructed queue.
\<close>

datatype operation = Enqueue ptr | Dequeue | Shutdown | IsEmpty | IsShutdown

datatype ret = Void | Item ptr | Flag bool

fun call :: "queue_t \<Rightarrow> operation \<Rightarrow> (ret \<times> queue_t) option" where
  "call h (Enqueue d) =
     (case enqueue h d of None \<Rightarrow> None | Some h' \<Rightarrow> Some (Void, h'))"
| "call h Dequeue =
     (case dequeue h of None \<Rightarrow> None | Some (d, h') \<Rightarrow> Some (Item d, h'))"
| "call h Shutdown = Some (Void, queue_shutdown h)"
| "call h IsEmpty = Some (Flag (is_empty h), h)"
| "call h IsShutdown = Some (Flag (is_shutdown h), h)"

fun run :: "queue_t \<Rightarrow> operation list \<Rightarrow> (ret list \<times> queue_t) option" where
  "run h [] = Some ([], h)"
| "run h (c # cs) =
     (case call h c of
        None \<Rightarrow> None
      | Some (r, h') \<Rightarrow>
          (case run h' cs of
             None \<Rightarrow> None
           | Some (rs, h'') \<Rightarrow> Some (r # rs, h'')))"

text \<open>
  The handle a sequence of calls leaves behind. A queue \<open>q\<close> with
  \<open>state_after (queue_init malloc_q malloc_buffer cap) ops = Some (Some q)\<close> is a queue
  that was constructed and then used through the calls \<open>ops\<close>, all of which returned.
\<close>

definition state_after :: "queue_t \<Rightarrow> operation list \<Rightarrow> queue_t option" where
  "state_after h ops = map_option snd (run h ops)"

subsection \<open>Invariant and abstraction\<close>

text \<open>
  What holds of the fields between calls. \<open>rear\<close> is the index of the cell written
  last; it is \<open>- 1\<close> until the first insertion.
\<close>

definition queue_inv :: "queue \<Rightarrow> bool" where
  "queue_inv q \<longleftrightarrow>
     0 < capacity q \<and> int (length (buffer q)) = capacity q \<and>
     0 \<le> size_q q \<and> size_q q \<le> capacity q \<and>
     0 \<le> front q \<and> front q < capacity q \<and>
     - 1 \<le> rear q \<and> rear q < capacity q \<and>
     (0 \<le> rear q \<or> size_q q = 0) \<and>
     (rear q + 1) mod capacity q = (front q + size_q q) mod capacity q"

text \<open>The items waiting in the queue, oldest first: \<open>size_q\<close> cells from \<open>front\<close> on, circularly.\<close>

definition contents :: "queue \<Rightarrow> ptr list" where
  "contents q =
     map (\<lambda>i. buffer q ! nat ((front q + int i) mod capacity q)) [0..<nat (size_q q)]"

text \<open>
  The tail of the queue: the index at which the next inserted item lands. \<^verbatim>\<open>enqueue\<close>
  computes it on line 95 of the source, from the stored index \<open>rear\<close> of the newest
  item, and writes the item there on line 96.
\<close>

definition landing_index :: "queue \<Rightarrow> int" where
  "landing_index q = (rear q + 1) smod capacity q"

definition INT_MAX :: int where
  "INT_MAX = 2147483647"

section \<open>Properties\<close>

subsection \<open>The wait loops\<close>

lemma enqueue_wait_blocks:
  assumes "size_q q = capacity q" and "\<not> is_shutdown_flag q"
  shows "enqueue_wait q = None"
proof (rule ccontr)
  assume "enqueue_wait q \<noteq> None"
  then obtain r where r: "enqueue_wait q = Some r"
    by auto
  have "\<not> (size_q q = capacity q \<and> \<not> is_shutdown_flag q)"
    by (rule enqueue_wait.raw_induct
          [where P = "\<lambda>x y. \<not> (size_q x = capacity x \<and> \<not> is_shutdown_flag x)", OF _ r])
       (auto simp: pthread_cond_wait_def split: if_splits)
  with assms show False
    by simp
qed

lemma enqueue_wait_passes:
  "size_q q \<noteq> capacity q \<or> is_shutdown_flag q \<Longrightarrow> enqueue_wait q = Some q"
  by (subst enqueue_wait.simps) auto

lemma dequeue_wait_blocks:
  assumes "size_q q = 0" and "\<not> is_shutdown_flag q"
  shows "dequeue_wait q = None"
proof (rule ccontr)
  assume "dequeue_wait q \<noteq> None"
  then obtain r where r: "dequeue_wait q = Some r"
    by auto
  have "\<not> (size_q q = 0 \<and> \<not> is_shutdown_flag q)"
    by (rule dequeue_wait.raw_induct
          [where P = "\<lambda>x y. \<not> (size_q x = 0 \<and> \<not> is_shutdown_flag x)", OF _ r])
       (auto simp: pthread_cond_wait_def split: if_splits)
  with assms show False
    by simp
qed

lemma dequeue_wait_passes:
  "size_q q \<noteq> 0 \<or> is_shutdown_flag q \<Longrightarrow> dequeue_wait q = Some q"
  by (subst dequeue_wait.simps) auto

text \<open>What each call does, by the state it finds.\<close>

lemma enqueue_shut_down:
  "is_shutdown_flag q \<Longrightarrow> enqueue (Some q) d = Some (Some q)"
  by (simp add: enqueue_def enqueue_wait_passes)

lemma enqueue_full:
  "size_q q = capacity q \<Longrightarrow> \<not> is_shutdown_flag q \<Longrightarrow> enqueue (Some q) d = None"
  by (simp add: enqueue_def enqueue_wait_blocks)

lemma enqueue_inserts:
  "size_q q \<noteq> capacity q \<Longrightarrow> \<not> is_shutdown_flag q \<Longrightarrow>
   enqueue (Some q) d =
     Some (Some (q\<lparr>rear := (rear q + 1) smod capacity q,
                    buffer := (buffer q)[nat ((rear q + 1) smod capacity q) := d],
                    size_q := size_q q + 1\<rparr>))"
  by (simp add: enqueue_def enqueue_wait_passes Let_def)

lemma dequeue_empty_waiting:
  "size_q q = 0 \<Longrightarrow> \<not> is_shutdown_flag q \<Longrightarrow> dequeue (Some q) = None"
  by (simp add: dequeue_def dequeue_wait_blocks)

lemma dequeue_empty_shut_down:
  "size_q q = 0 \<Longrightarrow> is_shutdown_flag q \<Longrightarrow> dequeue (Some q) = Some (NULL, Some q)"
  by (simp add: dequeue_def dequeue_wait_passes)

lemma dequeue_removes:
  "size_q q \<noteq> 0 \<Longrightarrow>
   dequeue (Some q) =
     Some (buffer q ! nat (front q),
           Some (q\<lparr>front := (front q + 1) smod capacity q, size_q := size_q q - 1\<rparr>))"
  by (simp add: dequeue_def dequeue_wait_passes Let_def)

subsection \<open>The invariant and the items in the queue\<close>

lemma smod_pos: "0 \<le> a \<Longrightarrow> 0 < b \<Longrightarrow> a smod b = a mod (b::int)"
  by (simp add: smod_int_alt_def sgn_if)

lemma queue_init_inv:
  "queue_init mq mb cap = Some q \<Longrightarrow> queue_inv q"
  by (auto simp: queue_init_def queue_inv_def split: if_splits option.splits)

lemma queue_init_contents:
  "queue_init mq mb cap = Some q \<Longrightarrow> contents q = []"
  by (auto simp: queue_init_def contents_def split: if_splits option.splits)

lemma landing_index_eq:
  "queue_inv q \<Longrightarrow> landing_index q = (front q + size_q q) mod capacity q"
  by (simp add: queue_inv_def landing_index_def smod_pos)

lemma landing_index_range:
  "queue_inv q \<Longrightarrow> 0 \<le> landing_index q \<and> landing_index q < capacity q"
  by (simp add: landing_index_eq) (simp add: queue_inv_def)

lemma slot_distinct:
  fixes f s c i :: int
  assumes "0 < c" "0 \<le> i" "i < s" "s < c"
  shows "(f + i) mod c \<noteq> (f + s) mod c"
proof
  assume "(f + i) mod c = (f + s) mod c"
  then have "c dvd ((f + s) - (f + i))"
    by (metis mod_eq_dvd_iff)
  then have "c dvd (s - i)" by simp
  moreover have "0 < s - i" "s - i < c" using assms by auto
  ultimately show False
    using zdvd_not_zless by blast
qed

lemma enqueue_inv:
  assumes "queue_inv q" "size_q q \<noteq> capacity q"
  shows "queue_inv (q\<lparr>rear := (rear q + 1) smod capacity q,
                    buffer := (buffer q)[nat ((rear q + 1) smod capacity q) := d],
                    size_q := size_q q + 1\<rparr>)"
proof -
  have "0 < capacity q" using assms by (simp add: queue_inv_def)
  then have "0 \<le> (front q + size_q q) mod capacity q"
    by simp
  then have "- 1 \<le> (front q + size_q q) mod capacity q"
    by linarith
  then show ?thesis
    using assms by (simp add: queue_inv_def smod_pos mod_simps add.assoc)
qed

lemma enqueue_contents:
  assumes "queue_inv q" "size_q q \<noteq> capacity q"
  shows "contents (q\<lparr>rear := (rear q + 1) smod capacity q,
                    buffer := (buffer q)[nat ((rear q + 1) smod capacity q) := d],
                    size_q := size_q q + 1\<rparr>) = contents q @ [d]"
proof -
  let ?c = "capacity q" and ?s = "size_q q" and ?f = "front q"
  have c: "0 < ?c" and s: "0 \<le> ?s" "?s < ?c" and len: "int (length (buffer q)) = ?c"
    using assms by (auto simp: queue_inv_def)
  have r: "(rear q + 1) smod ?c = (?f + ?s) mod ?c"
    using assms(1) landing_index_eq by (simp add: landing_index_def)
  have n: "nat (?s + 1) = Suc (nat ?s)" using s by simp
  have old: "(buffer q)[nat ((?f + ?s) mod ?c) := d] ! nat ((?f + int i) mod ?c)
             = buffer q ! nat ((?f + int i) mod ?c)" if "i < nat ?s" for i
  proof -
    have "(?f + int i) mod ?c \<noteq> (?f + ?s) mod ?c"
      using that c s by (intro slot_distinct) auto
    moreover have "0 \<le> (?f + int i) mod ?c" "0 \<le> (?f + ?s) mod ?c" using c by simp_all
    ultimately have "nat ((?f + ?s) mod ?c) \<noteq> nat ((?f + int i) mod ?c)" by simp
    then show ?thesis by simp
  qed
  have new: "(buffer q)[nat ((?f + ?s) mod ?c) := d] ! nat ((?f + ?s) mod ?c) = d"
  proof -
    have "(?f + ?s) mod ?c < ?c" using c by simp
    then have "nat ((?f + ?s) mod ?c) < length (buffer q)" using len c by linarith
    then show ?thesis by simp
  qed
  show ?thesis
    using s by (simp add: contents_def r n old new)
qed

lemma dequeue_inv:
  assumes "queue_inv q" "size_q q \<noteq> 0"
  shows "queue_inv (q\<lparr>front := (front q + 1) smod capacity q, size_q := size_q q - 1\<rparr>)"
  using assms
  apply (simp add: queue_inv_def smod_pos)
  apply (simp add: mod_simps)
  done

lemma dequeue_contents:
  assumes "queue_inv q" "size_q q \<noteq> 0"
  shows "contents q = buffer q ! nat (front q) #
           contents (q\<lparr>front := (front q + 1) smod capacity q, size_q := size_q q - 1\<rparr>)"
proof -
  let ?c = "capacity q" and ?s = "size_q q" and ?f = "front q"
  have c: "0 < ?c" and s: "0 < ?s" and f: "0 \<le> ?f" "?f < ?c"
    using assms by (auto simp: queue_inv_def)
  obtain m where m: "nat ?s = Suc m" "nat (?s - 1) = m"
    using s by (cases "nat ?s") auto
  have shift: "((?f + 1) mod ?c + int i) mod ?c = (?f + int (Suc i)) mod ?c" for i
    by (simp add: mod_simps algebra_simps)
  have "[0..<Suc m] = 0 # map Suc [0..<m]"
    by (simp add: upt_conv_Cons map_Suc_upt del: upt_Suc)
  then show ?thesis
    using f c by (simp add: contents_def m smod_pos shift del: upt_Suc of_nat_Suc)
qed

subsection \<open>Calls and sequences of calls\<close>

lemma length_contents: "length (contents q) = nat (size_q q)"
  by (simp add: contents_def)

lemma contents_empty: "size_q q = 0 \<Longrightarrow> contents q = []"
  by (simp add: contents_def)

lemma contents_shutdown [simp]: "contents (q\<lparr>is_shutdown_flag := b\<rparr>) = contents q"
  by (simp add: contents_def)

lemma queue_inv_shutdown [simp]: "queue_inv (q\<lparr>is_shutdown_flag := b\<rparr>) = queue_inv q"
  by (simp add: queue_inv_def)

text \<open>One call on a live queue: the handle stays live, the invariant and the capacity stay.\<close>

lemma enqueue_cases:
  assumes "enqueue (Some q) d = Some h"
  shows "(is_shutdown_flag q \<and> h = Some q) \<or>
         (\<not> is_shutdown_flag q \<and> size_q q \<noteq> capacity q \<and>
          h = Some (q\<lparr>rear := (rear q + 1) smod capacity q,
                      buffer := (buffer q)[nat ((rear q + 1) smod capacity q) := d],
                      size_q := size_q q + 1\<rparr>))"
proof (cases "is_shutdown_flag q")
  case True
  with assms show ?thesis by (simp add: enqueue_shut_down)
next
  case False
  with assms have "size_q q \<noteq> capacity q"
    by (auto simp: enqueue_full)
  with assms False show ?thesis by (simp add: enqueue_inserts)
qed

lemma dequeue_cases:
  assumes "dequeue (Some q) = Some (x, h)"
  shows "(size_q q = 0 \<and> is_shutdown_flag q \<and> x = NULL \<and> h = Some q) \<or>
         (size_q q \<noteq> 0 \<and> x = buffer q ! nat (front q) \<and>
          h = Some (q\<lparr>front := (front q + 1) smod capacity q, size_q := size_q q - 1\<rparr>))"
proof (cases "size_q q = 0")
  case True
  with assms have "is_shutdown_flag q"
    by - (rule ccontr, simp add: dequeue_empty_waiting)
  with assms True show ?thesis by (simp add: dequeue_empty_shut_down)
next
  case False
  with assms show ?thesis by (simp add: dequeue_removes)
qed

lemma call_live:
  assumes "call (Some q) c = Some (r, h)"
  shows "\<exists>q'. h = Some q' \<and> capacity q' = capacity q \<and>
               is_shutdown_flag q' = (is_shutdown_flag q \<or> c = Shutdown)"
proof (cases c)
  case (Enqueue d)
  with assms obtain h' where "enqueue (Some q) d = Some h'" "h = h'"
    by (auto split: option.splits)
  then show ?thesis using Enqueue enqueue_cases [of q d h'] by auto
next
  case Dequeue
  with assms obtain x where "dequeue (Some q) = Some (x, h)"
    by (auto split: option.splits)
  then show ?thesis using Dequeue dequeue_cases [of q x h] by auto
qed (use assms in \<open>auto simp: queue_shutdown_def\<close>)

lemma call_inv:
  assumes "queue_inv q" and "call (Some q) c = Some (r, Some q')"
  shows "queue_inv q'"
proof (cases c)
  case (Enqueue d)
  with assms obtain "enqueue (Some q) d = Some (Some q')"
    by (auto split: option.splits)
  then show ?thesis using assms(1) enqueue_cases [of q d "Some q'"] enqueue_inv [of q d] by auto
next
  case Dequeue
  with assms obtain x where "dequeue (Some q) = Some (x, Some q')"
    by (auto split: option.splits)
  then show ?thesis using assms(1) dequeue_cases [of q x "Some q'"] dequeue_inv [of q] by auto
qed (use assms in \<open>auto simp: queue_shutdown_def\<close>)

lemma run_live:
  "run (Some q) cs = Some (rs, h) \<Longrightarrow>
   \<exists>q'. h = Some q' \<and> capacity q' = capacity q \<and>
        is_shutdown_flag q' = (is_shutdown_flag q \<or> Shutdown \<in> set cs)"
proof (induction cs arbitrary: q rs)
  case Nil
  then show ?case by auto
next
  case (Cons c cs)
  from Cons.prems obtain r h1 rs' where
    c: "call (Some q) c = Some (r, h1)" and rest: "run h1 cs = Some (rs', h)"
    by (auto split: option.splits)
  from call_live [OF c] obtain q1 where
    q1: "h1 = Some q1" "capacity q1 = capacity q"
        "is_shutdown_flag q1 = (is_shutdown_flag q \<or> c = Shutdown)"
    by blast
  from Cons.IH [of q1 rs'] rest q1 show ?case by auto
qed

lemma run_inv:
  "queue_inv q \<Longrightarrow> run (Some q) cs = Some (rs, Some q') \<Longrightarrow> queue_inv q'"
proof (induction cs arbitrary: q rs)
  case Nil
  then show ?case by simp
next
  case (Cons c cs)
  from Cons.prems obtain r h1 rs' where
    c: "call (Some q) c = Some (r, h1)" and rest: "run h1 cs = Some (rs', Some q')"
    by (auto split: option.splits)
  from call_live [OF c] obtain q1 where q1: "h1 = Some q1"
    by blast
  with c Cons.prems(1) have "queue_inv q1"
    by (auto dest: call_inv)
  with Cons.IH [of q1 rs'] rest q1 show ?case by simp
qed

lemma state_afterD:
  "state_after h ops = Some h' \<Longrightarrow> \<exists>rs. run h ops = Some (rs, h')"
  by (auto simp: state_after_def)

lemma constructed_fields:
  "queue_init mq mb cap = Some q \<Longrightarrow>
   0 < cap \<and> capacity q = cap \<and> size_q q = 0 \<and> front q = 0 \<and> rear q = - 1 \<and>
   \<not> is_shutdown_flag q"
  by (auto simp: queue_init_def split: if_splits option.splits)

lemma run_null: "run None cs = Some (rs, h) \<Longrightarrow> h = None"
proof (induction cs arbitrary: rs)
  case Nil
  then show ?case by simp
next
  case (Cons c cs)
  then show ?case
    by (cases c)
       (auto simp: enqueue_def dequeue_def queue_shutdown_def split: option.splits)
qed

lemma reached:
  assumes "state_after (queue_init mq mb cap) ops = Some (Some q)"
  shows "queue_inv q \<and> capacity q = cap \<and> 0 < cap \<and>
         is_shutdown_flag q = (Shutdown \<in> set ops)"
proof -
  from assms obtain rs where r: "run (queue_init mq mb cap) ops = Some (rs, Some q)"
    by (auto dest: state_afterD)
  then obtain q0 where q0: "queue_init mq mb cap = Some q0"
    by (cases "queue_init mq mb cap") (auto dest: run_null)
  with r have r0: "run (Some q0) ops = Some (rs, Some q)"
    by simp
  from q0 have "queue_inv q0"
    by (rule queue_init_inv)
  from this r0 have "queue_inv q"
    by (rule run_inv)
  with run_live [OF r0] constructed_fields [OF q0] show ?thesis
    by auto
qed

subsection \<open>Runs of insertions and of removals\<close>

lemma run_append:
  "run h (xs @ ys) =
     (case run h xs of
        None \<Rightarrow> None
      | Some (rs, h') \<Rightarrow>
          (case run h' ys of
             None \<Rightarrow> None
           | Some (rs', h'') \<Rightarrow> Some (rs @ rs', h'')))"
  by (induction xs arbitrary: h) (auto split: option.splits)

lemma run_enqueues:
  assumes "queue_inv q" and "\<not> is_shutdown_flag q"
    and "size_q q + int (length es) \<le> capacity q"
  shows "\<exists>q'. run (Some q) (map Enqueue es) = Some (map (\<lambda>e. Void) es, Some q') \<and>
              queue_inv q' \<and> \<not> is_shutdown_flag q' \<and>
              contents q' = contents q @ es \<and>
              size_q q' = size_q q + int (length es)"
  using assms
proof (induction es arbitrary: q)
  case Nil
  then show ?case by simp
next
  case (Cons e es)
  define q1 where
    "q1 = q\<lparr>rear := (rear q + 1) smod capacity q,
            buffer := (buffer q)[nat ((rear q + 1) smod capacity q) := e],
            size_q := size_q q + 1\<rparr>"
  from Cons.prems have room: "size_q q \<noteq> capacity q"
    by auto
  with Cons.prems have step: "enqueue (Some q) e = Some (Some q1)"
    by (simp add: enqueue_inserts q1_def)
  have inv1: "queue_inv q1" and items1: "contents q1 = contents q @ [e]"
    using Cons.prems(1) room by (simp_all add: q1_def enqueue_inv enqueue_contents)
  have more: "\<not> is_shutdown_flag q1" "size_q q1 = size_q q + 1"
    "size_q q1 + int (length es) \<le> capacity q1"
    using Cons.prems by (auto simp: q1_def)
  from Cons.IH [OF inv1 more(1) more(3)] obtain q' where
    "run (Some q1) (map Enqueue es) = Some (map (\<lambda>e. Void) es, Some q')"
    "queue_inv q'" "\<not> is_shutdown_flag q'" "contents q' = contents q1 @ es"
    "size_q q' = size_q q1 + int (length es)"
    by blast
  with step items1 more(2) show ?case
    by simp
qed

lemma run_dequeues:
  assumes "queue_inv q" and "int n \<le> size_q q"
  shows "\<exists>q'. run (Some q) (replicate n Dequeue) =
                 Some (map Item (take n (contents q)), Some q') \<and>
              queue_inv q' \<and> is_shutdown_flag q' = is_shutdown_flag q \<and>
              capacity q' = capacity q \<and>
              contents q' = drop n (contents q) \<and>
              size_q q' = size_q q - int n"
  using assms
proof (induction n arbitrary: q)
  case 0
  then show ?case by simp
next
  case (Suc n)
  define q1 where
    "q1 = q\<lparr>front := (front q + 1) smod capacity q, size_q := size_q q - 1\<rparr>"
  from Suc.prems have some: "size_q q \<noteq> 0"
    by auto
  then have step: "dequeue (Some q) = Some (buffer q ! nat (front q), Some q1)"
    by (simp add: dequeue_removes q1_def)
  have inv1: "queue_inv q1"
    and items: "contents q = buffer q ! nat (front q) # contents q1"
    using Suc.prems(1) some dequeue_inv [of q] dequeue_contents [of q]
    by (simp_all add: q1_def)
  have more: "int n \<le> size_q q1" "size_q q1 = size_q q - 1"
    "is_shutdown_flag q1 = is_shutdown_flag q" "capacity q1 = capacity q"
    using Suc.prems by (auto simp: q1_def)
  from Suc.IH [OF inv1 more(1)] obtain q' where
    "run (Some q1) (replicate n Dequeue) = Some (map Item (take n (contents q1)), Some q')"
    "queue_inv q'" "is_shutdown_flag q' = is_shutdown_flag q1" "capacity q' = capacity q1"
    "contents q' = drop n (contents q1)" "size_q q' = size_q q1 - int n"
    by blast
  with step items more show ?case
    by simp
qed

lemma run_dequeues_drained:
  "size_q q = 0 \<Longrightarrow> is_shutdown_flag q \<Longrightarrow>
   run (Some q) (replicate n Dequeue) = Some (replicate n (Item NULL), Some q)"
  by (induction n) (simp_all add: dequeue_empty_shut_down)

lemma rear_from_front:
  assumes "queue_inv q" and "0 < size_q q"
  shows "rear q = (front q + size_q q - 1) mod capacity q"
proof -
  have c: "0 < capacity q" and r: "0 \<le> rear q" "rear q < capacity q"
    and eq: "(rear q + 1) mod capacity q = (front q + size_q q) mod capacity q"
    using assms by (auto simp: queue_inv_def)
  have "rear q = (rear q + 1 - 1) mod capacity q"
    using r by simp
  also have "\<dots> = ((rear q + 1) mod capacity q - 1) mod capacity q"
    by (simp only: mod_diff_left_eq)
  also have "\<dots> = (front q + size_q q - 1) mod capacity q"
    by (simp only: eq mod_diff_left_eq)
  finally show ?thesis .
qed

text \<open>
  Every array access of \<^verbatim>\<open>enqueue\<close> and \<^verbatim>\<open>dequeue\<close> is inside the array, and every
  increment stays in the range of a C \<^verbatim>\<open>int\<close>, in a state that satisfies the invariant.
\<close>

lemma accesses_in_bounds:
  assumes "queue_inv q"
  shows "0 \<le> landing_index q \<and> nat (landing_index q) < length (buffer q) \<and>
         nat (front q) < length (buffer q)"
proof -
  from assms have "0 \<le> landing_index q" "landing_index q < capacity q"
    by (simp_all add: landing_index_range)
  moreover from assms have "int (length (buffer q)) = capacity q"
    "0 \<le> front q" "front q < capacity q"
    by (simp_all add: queue_inv_def)
  ultimately show ?thesis
    by linarith
qed

lemma int_arithmetic_in_range:
  assumes "queue_inv q" and "capacity q \<le> INT_MAX"
  shows "rear q + 1 \<le> INT_MAX \<and> front q + 1 \<le> INT_MAX \<and>
         (size_q q = capacity q \<or> size_q q + 1 \<le> INT_MAX) \<and>
         - INT_MAX - 1 \<le> size_q q - 1"
  using assms by (auto simp: queue_inv_def INT_MAX_def)

lemma reached_int_range:
  assumes "state_after (queue_init mq mb cap) ops = Some (Some q)" and "cap \<le> INT_MAX"
  shows "capacity q \<le> INT_MAX \<and> rear q + 1 \<le> INT_MAX \<and> front q + 1 \<le> INT_MAX \<and>
         (size_q q = capacity q \<or> size_q q + 1 \<le> INT_MAX) \<and>
         - INT_MAX - 1 \<le> size_q q - 1"
  using reached [OF assms(1)] assms(2) int_arithmetic_in_range [of q] by simp



lemmas run_simps =
  queue_init_def enqueue_inserts enqueue_shut_down dequeue_removes dequeue_empty_shut_down
  queue_shutdown_def is_shutdown_def is_empty_def state_after_def smod_pos upt_conv_Cons

section \<open>The claims\<close>

text \<open>
  Claim C1 (FIFO order). Take any queue that was constructed and used, is not shut down
  and has room for the items \<open>es\<close>. Then every \<^verbatim>\<open>enqueue\<close> of \<open>es\<close>, in order, returns.
  The dequeues that follow first return the items that were waiting before, oldest
  first, and the next \<open>length es\<close> dequeues return exactly \<open>es\<close>, in the order of
  insertion, each item once; after them the queue is empty. For a queue that was empty
  the dequeues return exactly \<open>es\<close>.
\<close>

theorem fifo_order:
  assumes "state_after (queue_init mq mb cap) ops = Some (Some q)"
    and "\<not> is_shutdown_flag q"
    and "size_q q + int (length es) \<le> capacity q"
  shows "\<exists>q1 q2 q3.
           run (Some q) (map Enqueue es) = Some (map (\<lambda>e. Void) es, Some q1) \<and>
           run (Some q1) (replicate (nat (size_q q)) Dequeue) =
             Some (map Item (contents q), Some q2) \<and>
           run (Some q2) (replicate (length es) Dequeue) = Some (map Item es, Some q3) \<and>
           size_q q3 = 0"
proof -
  from reached [OF assms(1)] have inv: "queue_inv q"
    by simp
  from run_enqueues [OF inv assms(2,3)] obtain q1 where
    q1: "run (Some q) (map Enqueue es) = Some (map (\<lambda>e. Void) es, Some q1)"
        "queue_inv q1" "contents q1 = contents q @ es"
        "size_q q1 = size_q q + int (length es)"
    by blast
  have old: "0 \<le> size_q q" "length (contents q) = nat (size_q q)"
    using inv by (simp_all add: queue_inv_def length_contents)
  with q1 have "int (nat (size_q q)) \<le> size_q q1"
    by simp
  from run_dequeues [OF q1(2) this] obtain q2 where
    q2: "run (Some q1) (replicate (nat (size_q q)) Dequeue) =
           Some (map Item (take (nat (size_q q)) (contents q1)), Some q2)"
        "queue_inv q2" "contents q2 = drop (nat (size_q q)) (contents q1)"
        "size_q q2 = size_q q1 - int (nat (size_q q))"
    by blast
  from q2 q1 old have q2': "contents q2 = es" "size_q q2 = int (length es)"
    "take (nat (size_q q)) (contents q1) = contents q"
    by simp_all
  then have "int (length es) \<le> size_q q2"
    by simp
  from run_dequeues [OF q2(2) this] obtain q3 where
    "run (Some q2) (replicate (length es) Dequeue) =
       Some (map Item (take (length es) (contents q2)), Some q3)"
    "size_q q3 = size_q q2 - int (length es)"
    by blast
  with q1(1) q2(1) q2' show ?thesis
    by simp
qed

theorem fifo_order_witness:
  "state_after (queue_init True (Some id) 3) [Enqueue 1, Enqueue 2, Dequeue] =
     Some (Some \<lparr>buffer = [1, 2, 2], capacity = 3, size_q = 1, front = 1, rear = 1,
                 is_shutdown_flag = False\<rparr>) \<and>
   size_q \<lparr>buffer = [1, 2, 2], capacity = 3, size_q = 1, front = 1, rear = 1,
           is_shutdown_flag = False\<rparr> + int (length [7, 8 :: ptr]) \<le> 3 \<and>
   run (Some \<lparr>buffer = [1, 2, 2], capacity = 3, size_q = 1, front = 1, rear = 1,
              is_shutdown_flag = False\<rparr>) [Enqueue 7, Enqueue 8] =
     Some ([Void, Void],
           Some \<lparr>buffer = [8, 2, 7], capacity = 3, size_q = 3, front = 1, rear = 0,
                 is_shutdown_flag = False\<rparr>) \<and>
   run (Some \<lparr>buffer = [8, 2, 7], capacity = 3, size_q = 3, front = 1, rear = 0,
              is_shutdown_flag = False\<rparr>) [Dequeue] =
     Some ([Item 2],
           Some \<lparr>buffer = [8, 2, 7], capacity = 3, size_q = 2, front = 2, rear = 0,
                 is_shutdown_flag = False\<rparr>) \<and>
   run (Some \<lparr>buffer = [8, 2, 7], capacity = 3, size_q = 2, front = 2, rear = 0,
              is_shutdown_flag = False\<rparr>) [Dequeue, Dequeue] =
     Some ([Item 7, Item 8],
           Some \<lparr>buffer = [8, 2, 7], capacity = 3, size_q = 0, front = 1, rear = 0,
                 is_shutdown_flag = False\<rparr>)"
proof -
  let ?Q = "\<lparr>buffer = [1, 2, 2], capacity = 3, size_q = 1, front = 1, rear = 1,
             is_shutdown_flag = False\<rparr>"
  have h: "state_after (queue_init True (Some id) 3) [Enqueue 1, Enqueue 2, Dequeue] =
     Some (Some ?Q)"
    by (simp add: run_simps)
  have o: "\<not> is_shutdown_flag ?Q" and r: "size_q ?Q + int (length [7, 8 :: ptr]) \<le> capacity ?Q"
    by simp_all
  from fifo_order [OF h o r] h show ?thesis
    by (simp add: run_simps)
qed

text \<open>
  Claim C2 (capacity bound). In every state of a queue that was constructed and then
  used through any sequence of \<open>Enqueue\<close>, \<open>Dequeue\<close>, \<open>Shutdown\<close>, \<open>IsEmpty\<close> and
  \<open>IsShutdown\<close> calls, the size is between 0 and the capacity, and the capacity is the
  one given at construction. When the queue is full and not shut down, \<^verbatim>\<open>enqueue\<close>
  does not return: the caller waits, nothing is inserted and the size stays at the
  capacity.
\<close>

theorem capacity_bound:
  assumes "state_after (queue_init mq mb cap) ops = Some (Some q)"
  shows "0 \<le> size_q q \<and> size_q q \<le> capacity q \<and> capacity q = cap \<and>
         (size_q q = capacity q \<and> \<not> is_shutdown_flag q \<longrightarrow> enqueue (Some q) d = None)"
  using reached [OF assms] by (auto simp: queue_inv_def enqueue_full)

theorem capacity_bound_witness:
  "state_after (queue_init True (Some id) 1) [Enqueue 5] =
     Some (Some \<lparr>buffer = [5], capacity = 1, size_q = 1, front = 0, rear = 0,
                   is_shutdown_flag = False\<rparr>) \<and>
   enqueue (Some \<lparr>buffer = [5], capacity = 1, size_q = 1, front = 0, rear = 0,
                   is_shutdown_flag = False\<rparr>) 9 = None"
proof -
  have h: "state_after (queue_init True (Some id) 1) [Enqueue 5] =
     Some (Some \<lparr>buffer = [5], capacity = 1, size_q = 1, front = 0, rear = 0,
                   is_shutdown_flag = False\<rparr>)"
    by (simp add: run_simps)
  from capacity_bound [OF h, of 9] h show ?thesis
    by simp
qed

text \<open>
  Claim C3 (shutdown drains, then signals completion). For a queue of capacity 3 in
  which exactly \<open>a\<close> and \<open>b\<close> are waiting, \<open>a\<close> the older: after \<^verbatim>\<open>queue_shutdown\<close> the
  first \<^verbatim>\<open>dequeue\<close> returns \<open>a\<close>, the second \<open>b\<close>, the third \<^verbatim>\<open>NULL\<close>, and so does
  each of any number \<open>n\<close> of further ones.
\<close>

theorem shutdown_drains_then_signals:
  assumes "state_after (queue_init mq mb cap) ops = Some (Some q)"
    and "capacity q = 3" and "contents q = [a, b]"
  shows "\<exists>q'. run (Some q) (Shutdown # Dequeue # Dequeue # Dequeue # replicate n Dequeue) =
                Some (Void # Item a # Item b # Item NULL # replicate n (Item NULL), Some q')"
proof -
  define qs where "qs = q\<lparr>is_shutdown_flag := True\<rparr>"
  from reached [OF assms(1)] have inv: "queue_inv qs"
    by (simp add: qs_def)
  have items: "contents qs = [a, b]"
    using assms(3) by (simp add: qs_def)
  then have "length (contents qs) = 2"
    by simp
  with inv have two: "size_q qs = 2"
    by (simp add: length_contents queue_inv_def)
  then have "int 2 \<le> size_q qs"
    by simp
  from run_dequeues [OF inv this] items two obtain q2 where
    q2: "run (Some qs) (replicate 2 Dequeue) = Some ([Item a, Item b], Some q2)"
        "is_shutdown_flag q2 = is_shutdown_flag qs" "size_q q2 = 0"
    by auto
  then have "run (Some q2) (replicate (Suc n) Dequeue) =
      Some (replicate (Suc n) (Item NULL), Some q2)"
    by (intro run_dequeues_drained) (simp_all add: qs_def)
  with q2(1) have "run (Some qs) (replicate 2 Dequeue @ replicate (Suc n) Dequeue) =
      Some ([Item a, Item b] @ replicate (Suc n) (Item NULL), Some q2)"
    by (simp only: run_append option.case prod.case)
  then show ?thesis
    by (auto simp: queue_shutdown_def qs_def numeral_2_eq_2 split: option.splits)
qed

theorem shutdown_drains_then_signals_witness:
  "state_after (queue_init True (Some id) 3)
     [Enqueue 1, Enqueue 2, Dequeue, Dequeue, Enqueue 11, Enqueue 12] =
     Some (Some \<lparr>buffer = [12, 2, 11], capacity = 3, size_q = 2, front = 2, rear = 0,
                 is_shutdown_flag = False\<rparr>) \<and>
   contents \<lparr>buffer = [12, 2, 11], capacity = 3, size_q = 2, front = 2, rear = 0,
             is_shutdown_flag = False\<rparr> = [11, 12] \<and>
   run (Some \<lparr>buffer = [12, 2, 11], capacity = 3, size_q = 2, front = 2, rear = 0,
              is_shutdown_flag = False\<rparr>)
     [Shutdown, Dequeue, Dequeue, Dequeue, Dequeue, Dequeue] =
     Some ([Void, Item 11, Item 12, Item NULL, Item NULL, Item NULL],
           Some \<lparr>buffer = [12, 2, 11], capacity = 3, size_q = 0, front = 1, rear = 0,
                 is_shutdown_flag = True\<rparr>)"
proof -
  let ?Q = "\<lparr>buffer = [12, 2, 11], capacity = 3, size_q = 2, front = 2, rear = 0,
             is_shutdown_flag = False\<rparr>"
  have h: "state_after (queue_init True (Some id) 3)
     [Enqueue 1, Enqueue 2, Dequeue, Dequeue, Enqueue 11, Enqueue 12] = Some (Some ?Q)"
    by (simp add: run_simps)
  have c: "capacity ?Q = 3" and i: "contents ?Q = [11, 12]"
    by (simp_all add: contents_def upt_conv_Cons)
  from shutdown_drains_then_signals [OF h c i, of 2] h i show ?thesis
    by (simp add: run_simps numeral_2_eq_2)
qed

text \<open>
  Claim C4 (an insertion after shutdown is dropped). For every queue whose flag is set
  and every item, \<^verbatim>\<open>enqueue\<close> returns and the queue after the call is the queue before
  it: buffer, capacity, size, front, rear and flag are all as they were.
\<close>

theorem enqueue_after_shutdown_is_dropped:
  "is_shutdown_flag q \<Longrightarrow> enqueue (Some q) d = Some (Some q)"
  by (rule enqueue_shut_down)

theorem enqueue_after_shutdown_is_dropped_witness:
  "is_shutdown_flag
     \<lparr>buffer = [4, 9], capacity = 2, size_q = 1, front = 1, rear = 1, is_shutdown_flag = True\<rparr> \<and>
   enqueue
     (Some \<lparr>buffer = [4, 9], capacity = 2, size_q = 1, front = 1, rear = 1,
             is_shutdown_flag = True\<rparr>) 7 =
     Some (Some \<lparr>buffer = [4, 9], capacity = 2, size_q = 1, front = 1, rear = 1,
                   is_shutdown_flag = True\<rparr>)"
  using enqueue_after_shutdown_is_dropped
    [of "\<lparr>buffer = [4, 9], capacity = 2, size_q = 1, front = 1, rear = 1,
          is_shutdown_flag = True\<rparr>" 7]
  by simp

text \<open>
  Claim C5 (construction). \<^verbatim>\<open>queue_init\<close> with a capacity of 0 or less returns no
  queue, whatever \<^verbatim>\<open>malloc\<close> would do. A queue it does return was asked for with a
  positive capacity, has that capacity, size 0 and a clear flag. With a positive
  capacity and both allocations granted it returns a queue.
\<close>

theorem queue_init_validates:
  "(cap \<le> 0 \<longrightarrow> queue_init mq mb cap = None) \<and>
   (queue_init mq mb cap = Some q \<longrightarrow>
      0 < cap \<and> capacity q = cap \<and> size_q q = 0 \<and> \<not> is_shutdown_flag q) \<and>
   (0 < cap \<longrightarrow> (\<exists>q'. queue_init True (Some cells) cap = Some q'))"
  by (auto simp: queue_init_def split: if_splits option.splits)

theorem queue_init_validates_witness:
  "(- 5 :: int) \<le> 0 \<and> queue_init True (Some id) (- 5) = None \<and>
   (0 :: int) \<le> 0 \<and> queue_init True (Some id) 0 = None \<and>
   (0 :: int) < 1 \<and>
   queue_init True (Some id) 1 =
     Some \<lparr>buffer = [0], capacity = 1, size_q = 0, front = 0, rear = - 1,
           is_shutdown_flag = False\<rparr> \<and>
   size_q \<lparr>buffer = [0], capacity = 1, size_q = 0, front = 0, rear = - 1,
           is_shutdown_flag = False\<rparr> = 0 \<and>
   \<not> is_shutdown_flag \<lparr>buffer = [0], capacity = 1, size_q = 0, front = 0, rear = - 1,
           is_shutdown_flag = False\<rparr>"
  using queue_init_validates [of "- 5" True "Some id"]
    queue_init_validates [of 0 True "Some id"]
    queue_init_validates [of 1 True "Some id"
      "\<lparr>buffer = [0], capacity = 1, size_q = 0, front = 0, rear = - 1,
        is_shutdown_flag = False\<rparr>" id]
  by (simp add: queue_init_def)



text \<open>
  Claim C7 (index invariant). In every state of a queue that was constructed and used,
  the head \<open>front\<close> and the tail, the index where the next inserted item lands, are
  integers in \<open>[0, capacity)\<close>, and the tail equals \<open>(front + size) mod capacity\<close>,
  whatever the size and so whenever it is positive. The tail is where an insertion that
  is performed writes its item, and it becomes the stored \<open>rear\<close>. Every call that
  returns, \<open>Enqueue\<close> and \<open>Dequeue\<close> among them, leads to a state in which the same
  holds.
\<close>

theorem index_invariant:
  assumes "state_after (queue_init mq mb cap) ops = Some (Some q)"
  shows "0 \<le> front q \<and> front q < capacity q \<and>
         0 \<le> landing_index q \<and> landing_index q < capacity q \<and>
         landing_index q = (front q + size_q q) mod capacity q \<and>
         (size_q q \<noteq> capacity q \<and> \<not> is_shutdown_flag q \<longrightarrow>
            (\<exists>q1. enqueue (Some q) d = Some (Some q1) \<and>
                  buffer q1 = (buffer q)[nat (landing_index q) := d] \<and>
                  rear q1 = landing_index q)) \<and>
         (call (Some q) c = Some (r, Some q') \<longrightarrow>
            0 \<le> front q' \<and> front q' < capacity q' \<and>
            0 \<le> landing_index q' \<and> landing_index q' < capacity q' \<and>
            landing_index q' = (front q' + size_q q') mod capacity q')"
proof -
  have rel: "0 \<le> front p \<and> front p < capacity p \<and>
      0 \<le> landing_index p \<and> landing_index p < capacity p \<and>
      landing_index p = (front p + size_q p) mod capacity p" if "queue_inv p" for p
    using that landing_index_range [of p] landing_index_eq [of p]
    by (simp add: queue_inv_def)
  from reached [OF assms] have inv: "queue_inv q"
    by simp
  have "queue_inv q'" if "call (Some q) c = Some (r, Some q')"
    using inv that by (rule call_inv)
  moreover have "\<exists>q1. enqueue (Some q) d = Some (Some q1) \<and>
      buffer q1 = (buffer q)[nat (landing_index q) := d] \<and> rear q1 = landing_index q"
    if "size_q q \<noteq> capacity q \<and> \<not> is_shutdown_flag q"
    using that by (simp add: enqueue_inserts landing_index_def)
  ultimately show ?thesis
    using rel [OF inv] rel [of q'] by blast
qed

theorem index_invariant_witness:
  "state_after (queue_init True (Some id) 3) [Enqueue 5, Enqueue 6, Dequeue] =
     Some (Some \<lparr>buffer = [5, 6, 2], capacity = 3, size_q = 1, front = 1, rear = 1,
                 is_shutdown_flag = False\<rparr>) \<and>
   landing_index \<lparr>buffer = [5, 6, 2], capacity = 3, size_q = 1, front = 1, rear = 1,
                 is_shutdown_flag = False\<rparr> = (1 + 1) mod 3 \<and>
   call (Some \<lparr>buffer = [5, 6, 2], capacity = 3, size_q = 1, front = 1, rear = 1,
               is_shutdown_flag = False\<rparr>) (Enqueue 9) =
     Some (Void, Some \<lparr>buffer = [5, 6, 9], capacity = 3, size_q = 2, front = 1, rear = 2,
                       is_shutdown_flag = False\<rparr>) \<and>
   landing_index \<lparr>buffer = [5, 6, 9], capacity = 3, size_q = 2, front = 1, rear = 2,
                 is_shutdown_flag = False\<rparr> = (1 + 2) mod 3"
proof -
  let ?Q = "\<lparr>buffer = [5, 6, 2], capacity = 3, size_q = 1, front = 1, rear = 1,
             is_shutdown_flag = False\<rparr>"
  let ?Q' = "\<lparr>buffer = [5, 6, 9], capacity = 3, size_q = 2, front = 1, rear = 2,
              is_shutdown_flag = False\<rparr>"
  have h: "state_after (queue_init True (Some id) 3) [Enqueue 5, Enqueue 6, Dequeue] =
     Some (Some ?Q)"
    by (simp add: run_simps)
  have c: "call (Some ?Q) (Enqueue 9) = Some (Void, Some ?Q')"
    by (simp add: run_simps)
  from index_invariant [OF h, of 9 "Enqueue 9" Void ?Q'] h c show ?thesis
    by simp
qed

text \<open>
  Claim C8 (frame and idempotence of shutdown). \<^verbatim>\<open>queue_shutdown\<close> on a live queue
  sets the flag and leaves capacity, size, front, rear, the buffer and so the waiting
  items as they were; calling it any number of times more gives the same state as the
  first call.
\<close>

theorem shutdown_frame_idempotent:
  "\<exists>q'. queue_shutdown (Some q) = Some q' \<and> is_shutdown_flag q' \<and>
        capacity q' = capacity q \<and> size_q q' = size_q q \<and> front q' = front q \<and>
        rear q' = rear q \<and> buffer q' = buffer q \<and> contents q' = contents q \<and>
        q' = q\<lparr>is_shutdown_flag := True\<rparr> \<and>
        (queue_shutdown ^^ Suc n) (Some q) = Some q'"
proof -
  have "(queue_shutdown ^^ Suc n) (Some q) = Some (q\<lparr>is_shutdown_flag := True\<rparr>)"
    by (induction n) (simp_all add: queue_shutdown_def)
  then show ?thesis
    by (simp add: queue_shutdown_def)
qed

text \<open>
  Claim C9 (the \<^verbatim>\<open>NULL\<close> handle). On the \<^verbatim>\<open>NULL\<close> handle \<^verbatim>\<open>is_empty\<close> and
  \<^verbatim>\<open>is_shutdown\<close> return true, \<^verbatim>\<open>dequeue\<close> returns \<^verbatim>\<open>NULL\<close>, and \<^verbatim>\<open>enqueue\<close>,
  \<^verbatim>\<open>queue_shutdown\<close> and \<^verbatim>\<open>queue_destroy\<close> return at once with nothing done: the
  handle is still \<^verbatim>\<open>NULL\<close> and nothing was torn down. Every sequence of calls on the
  \<^verbatim>\<open>NULL\<close> handle returns.
\<close>

theorem null_handle_defaults:
  "is_empty None = True \<and> is_shutdown None = True \<and>
   dequeue None = Some (NULL, None) \<and> enqueue None d = Some None \<and>
   queue_shutdown None = None \<and> queue_destroy None = Nothing_done \<and>
   (\<exists>rs. run None ops = Some (rs, None))"
proof -
  have "\<exists>rs. run None ops = Some (rs, None)"
  proof (induction ops)
    case Nil
    show ?case by simp
  next
    case (Cons c cs)
    then show ?case
      by (cases c) (auto simp: enqueue_def dequeue_def queue_shutdown_def)
  qed
  then show ?thesis
    by (simp add: is_empty_def is_shutdown_def dequeue_def enqueue_def queue_shutdown_def
        queue_destroy_def)
qed

text \<open>
  Claim C10 (\<^verbatim>\<open>NULL\<close> as an item). An empty queue that is not shut down accepts
  \<^verbatim>\<open>NULL\<close> as an item: it is then the one item waiting, and the \<^verbatim>\<open>dequeue\<close> that
  removes it returns \<^verbatim>\<open>NULL\<close>. That is the value \<^verbatim>\<open>dequeue\<close> also returns on the
  same queue empty and shut down, and on the \<^verbatim>\<open>NULL\<close> handle.
\<close>

theorem null_item_is_no_item:
  assumes "state_after (queue_init mq mb cap) ops = Some (Some q)"
    and "size_q q = 0" and "\<not> is_shutdown_flag q"
  shows "\<exists>q1 q2.
           enqueue (Some q) NULL = Some (Some q1) \<and> \<not> is_shutdown_flag q1 \<and>
           contents q1 = [NULL] \<and>
           dequeue (Some q1) = Some (NULL, Some q2) \<and>
           dequeue (queue_shutdown (Some q)) = Some (NULL, queue_shutdown (Some q)) \<and>
           dequeue None = Some (NULL, None)"
proof -
  from reached [OF assms(1)] have inv: "queue_inv q"
    by simp
  from assms(2) have "size_q q + int (length [NULL]) \<le> capacity q"
    using inv by (simp add: queue_inv_def)
  from run_enqueues [OF inv assms(3) this] assms(2) obtain q1 where
    q1: "enqueue (Some q) NULL = Some (Some q1)" "queue_inv q1" "\<not> is_shutdown_flag q1"
        "contents q1 = [NULL]" "size_q q1 = 1"
    by (auto simp: contents_empty split: option.splits)
  then have "int 1 \<le> size_q q1"
    by simp
  from run_dequeues [OF q1(2) this] q1(4) obtain q2 where
    "dequeue (Some q1) = Some (NULL, Some q2)"
    by (auto split: option.splits)
  moreover have "dequeue None = Some (NULL, None)"
    by (simp add: dequeue_def)
  moreover have "dequeue (queue_shutdown (Some q)) = Some (NULL, queue_shutdown (Some q))"
    using assms(2) by (simp add: queue_shutdown_def dequeue_empty_shut_down)
  ultimately show ?thesis
    using q1 by simp
qed

theorem null_item_is_no_item_witness:
  "state_after (queue_init True (Some id) 2) [Enqueue 4, Dequeue] =
     Some (Some \<lparr>buffer = [4, 1], capacity = 2, size_q = 0, front = 1, rear = 0,
                 is_shutdown_flag = False\<rparr>) \<and>
   enqueue (Some \<lparr>buffer = [4, 1], capacity = 2, size_q = 0, front = 1, rear = 0,
                 is_shutdown_flag = False\<rparr>) NULL =
     Some (Some \<lparr>buffer = [4, NULL], capacity = 2, size_q = 1, front = 1, rear = 1,
                 is_shutdown_flag = False\<rparr>) \<and>
   dequeue (Some \<lparr>buffer = [4, NULL], capacity = 2, size_q = 1, front = 1, rear = 1,
                 is_shutdown_flag = False\<rparr>) =
     Some (NULL, Some \<lparr>buffer = [4, NULL], capacity = 2, size_q = 0, front = 0, rear = 1,
                 is_shutdown_flag = False\<rparr>) \<and>
   dequeue (Some \<lparr>buffer = [4, 1], capacity = 2, size_q = 0, front = 1, rear = 0,
                 is_shutdown_flag = True\<rparr>) =
     Some (NULL, Some \<lparr>buffer = [4, 1], capacity = 2, size_q = 0, front = 1, rear = 0,
                 is_shutdown_flag = True\<rparr>)"
proof -
  let ?Q = "\<lparr>buffer = [4, 1], capacity = 2, size_q = 0, front = 1, rear = 0,
             is_shutdown_flag = False\<rparr>"
  have h: "state_after (queue_init True (Some id) 2) [Enqueue 4, Dequeue] = Some (Some ?Q)"
    by (simp add: run_simps)
  have e: "size_q ?Q = 0" and o: "\<not> is_shutdown_flag ?Q"
    by simp_all
  from null_item_is_no_item [OF h e o] h show ?thesis
    by (simp add: run_simps)
qed

end
